theory Spec2Isabelle
  imports Complex_Main
begin

section \<open>The circular buffer of \<^verbatim>\<open>rtprocessor.py\<close>\<close>

text \<open>
  \<^verbatim>\<open>CircularBuffer\<close> keeps three attributes: \<^verbatim>\<open>length\<close>, the numpy array
  \<^verbatim>\<open>buf\<close> of that many float64 zeros, and the write cursor \<^verbatim>\<open>ix\<close>. The
  attributes \<^verbatim>\<open>length\<close> and \<^verbatim>\<open>ix\<close> are integers and their values are kept as
  \<^typ>\<open>int\<close>; the array is a list. Samples are float64 numbers in the source; they
  are taken here as real numbers, so rounding of the arithmetic is not part of the model.
  The field \<^verbatim>\<open>length\<close> is named \<open>length_cb\<close>, since \<open>length\<close> is the length of
  a list in HOL. The cursor \<^verbatim>\<open>ix\<close> is the Python integer \<^verbatim>\<open>length - 1\<close> after
  \<^verbatim>\<open>__init__\<close> and a numpy int64, the result of \<^verbatim>\<open>np.mod\<close>, after every
  \<^verbatim>\<open>push\<close>; the field \<open>ix_numpy\<close> says which of the two it is.
\<close>

record CircularBuffer =
  length_cb :: int
  buf :: "real list"
  ix :: int
  ix_numpy :: bool

datatype error = ZeroDivisionError | OverflowError | IndexError

text \<open>
  \<^verbatim>\<open>__init__(self, length)\<close>: the argument is the maximal delay, a number of samples;
  it is a natural number here (\<^verbatim>\<open>np.zeros\<close> refuses a negative size).
\<close>

definition CircularBuffer_init :: "nat \<Rightarrow> CircularBuffer" where
  "CircularBuffer_init max_delay =
     (let l = int max_delay + 1
      in \<lparr>length_cb = l, buf = replicate (nat l) 0, ix = l - 1, ix_numpy = False\<rparr>)"

text \<open>
  \<^verbatim>\<open>push\<close>: \<^verbatim>\<open>self.ix = np.mod(self.ix + 1, self.length); self.buf[self.ix] = x\<close>.
  \<^verbatim>\<open>np.mod\<close> on integers with a positive divisor is \<open>mod\<close> on \<^typ>\<open>int\<close>.
\<close>

definition push :: "CircularBuffer \<Rightarrow> real \<Rightarrow> CircularBuffer" where
  "push b v =
     (let i = (ix b + 1) mod length_cb b
      in b\<lparr>ix := i, ix_numpy := True, buf := (buf b)[nat i := v]\<rparr>)"

text \<open>
  \<^verbatim>\<open>get\<close>: \<^verbatim>\<open>self.buf[np.mod(self.ix + self.length - n, self.length)]\<close>. The
  index computation is \<open>get_index\<close>, and \<open>get\<close> is the cell read there: the result
  of a call that raises nothing. The call itself, with what it raises, is \<open>get_call\<close>
  below.
\<close>

definition get_index :: "CircularBuffer \<Rightarrow> int \<Rightarrow> int" where
  "get_index b n = (ix b + length_cb b - n) mod length_cb b"

definition get :: "CircularBuffer \<Rightarrow> int \<Rightarrow> real" where
  "get b n = buf b ! nat (get_index b n)"


text \<open>
  The shape every buffer built by the constructor and changed by \<open>push\<close> only has:
  the array has \<^verbatim>\<open>length\<close> cells, there is at least one, and the cursor is inside.
\<close>

definition cb_ok :: "CircularBuffer \<Rightarrow> bool" where
  "cb_ok b \<longleftrightarrow> 0 < length_cb b \<and> int (length (buf b)) = length_cb b
               \<and> 0 \<le> ix b \<and> ix b < length_cb b"

text \<open>The values pushed so far, oldest first: what \<open>get\<close> sees at offset \<open>i\<close>.\<close>

definition past :: "real list \<Rightarrow> nat \<Rightarrow> real" where
  "past vs i = (if i < length vs then rev vs ! i else 0)"

definition holds :: "CircularBuffer \<Rightarrow> real list \<Rightarrow> bool" where
  "holds b vs \<longleftrightarrow> cb_ok b \<and> (\<forall>i. int i < length_cb b \<longrightarrow> get b (int i) = past vs i)"

section \<open>The processor of \<^verbatim>\<open>rtprocessor.py\<close> and the effects of \<^verbatim>\<open>guitar_effects.py\<close>\<close>

text \<open>
  The classes derived from \<^verbatim>\<open>RTProcessor\<close> are the constructors of \<open>effect\<close>; the
  field \<open>cls\<close> of an instance is its class. An instance holds the sampling rate
  \<^verbatim>\<open>SF\<close>, the two histories \<^verbatim>\<open>x\<close> and \<^verbatim>\<open>y\<close> and, for \<^verbatim>\<open>Wah\<close> and
  \<^verbatim>\<open>Tremolo\<close>, the oscillator phase \<^verbatim>\<open>omega\<close> (zero and never read in the other
  classes). The remaining attributes are assigned once in \<^verbatim>\<open>__init__\<close> from constants
  and from \<^verbatim>\<open>SF\<close> and never change; they are the constants and functions of \<open>SF\<close> below,
  named after class and attribute. The attributes \<^verbatim>\<open>b1\<close> and \<^verbatim>\<open>a1\<close> of \<^verbatim>\<open>Wah\<close> are
  assigned in every call of \<^verbatim>\<open>_process\<close> before they are read, so they are local
  values of that call.
\<close>

datatype effect =
  Delta | Echo | Recursive_Echo | Natural_Echo | Reverb | Biquad | Fuzz | Wah | Tremolo

record RTProcessor =
  cls :: effect
  SF :: nat
  x :: CircularBuffer
  y :: CircularBuffer
  omega :: real

text \<open>
  \<^verbatim>\<open>RTProcessor.__init__(self, rate, channels=1, max_delay=1)\<close>. The sampling rate is a
  number of samples per second, a natural number. The argument \<^verbatim>\<open>channels\<close> is taken
  and not used.
\<close>

definition RTProcessor_init :: "effect \<Rightarrow> nat \<Rightarrow> nat \<Rightarrow> nat \<Rightarrow> RTProcessor" where
  "RTProcessor_init c rate channels max_delay =
     \<lparr>cls = c, SF = rate, x = CircularBuffer_init max_delay,
      y = CircularBuffer_init max_delay, omega = 0\<rparr>"

text \<open>Python's \<^verbatim>\<open>int\<close> of a float: truncation towards zero.\<close>

definition py_int :: "real \<Rightarrow> int" where
  "py_int r = (if 0 \<le> r then \<lfloor>r\<rfloor> else \<lceil>r\<rceil>)"

definition Echo_a :: real where "Echo_a = 1"
definition Echo_b :: real where "Echo_b = 0.7"
definition Echo_c :: real where "Echo_c = 0.5"
definition Echo_norm :: real where "Echo_norm = 1.0 / (Echo_a + Echo_b + Echo_c)"
definition Echo_N :: "nat \<Rightarrow> int" where "Echo_N sf = py_int (0.3 * real sf)"

definition Recursive_Echo_a :: real where "Recursive_Echo_a = 0.7"
definition Recursive_Echo_norm :: real where
  "Recursive_Echo_norm = 1 - Recursive_Echo_a * Recursive_Echo_a"
definition Recursive_Echo_N :: "nat \<Rightarrow> int" where
  "Recursive_Echo_N sf = py_int (0.3 * real sf)"

definition Natural_Echo_a :: real where "Natural_Echo_a = 0.8"
definition Natural_Echo_l :: real where "Natural_Echo_l = 0.7"
definition Natural_Echo_N :: "nat \<Rightarrow> int" where
  "Natural_Echo_N sf = py_int (0.3 * real sf)"

definition Reverb_a :: real where "Reverb_a = 0.8"
definition Reverb_norm :: real where "Reverb_norm = 0.5"
definition Reverb_N :: "nat \<Rightarrow> int" where "Reverb_N sf = py_int (0.02 * real sf)"

definition Biquad_b1 :: real where "Biquad_b1 = - 2 * 0.9 * cos (0.06 * pi)"
definition Biquad_b2 :: real where "Biquad_b2 = 0.9 * 0.9"
definition Biquad_a1 :: real where "Biquad_a1 = - 2 * 0.98 * cos (0.1 * pi)"
definition Biquad_a2 :: real where "Biquad_a2 = 0.98 * 0.98"
definition Biquad_norm :: real where "Biquad_norm = 0.1"

definition Fuzz_T :: real where "Fuzz_T = 0.005"
definition Fuzz_G :: real where "Fuzz_G = 5"
definition Fuzz_limit :: real where "Fuzz_limit = 2147483647 * Fuzz_T"

definition Wah_pole_delta :: real where "Wah_pole_delta = 0.3 * pi"
definition Wah_phi :: "nat \<Rightarrow> real" where "Wah_phi sf = 3.0 * 2.0 * pi / real sf"
definition Wah_pole_mag :: real where "Wah_pole_mag = 0.99"
definition Wah_pole_phase :: real where "Wah_pole_phase = 0.04 * pi"
definition Wah_zero_mag :: real where "Wah_zero_mag = 0.9"
definition Wah_zero_phase :: real where "Wah_zero_phase = 0.06 * pi"
definition Wah_b2 :: real where "Wah_b2 = Wah_zero_mag * Wah_zero_mag"
definition Wah_a2 :: real where "Wah_a2 = Wah_pole_mag * Wah_pole_mag"

definition Tremolo_depth :: real where "Tremolo_depth = 0.9"
definition Tremolo_phi :: "nat \<Rightarrow> real" where "Tremolo_phi sf = 5 * 2 * pi / real sf"

text \<open>
  The constructors. Each passes its \<^verbatim>\<open>max_delay\<close> to the base class: the rate for the
  four echoes and the reverb, 2 for \<^verbatim>\<open>Biquad\<close> and \<^verbatim>\<open>Wah\<close>, 1 for
  \<^verbatim>\<open>Tremolo\<close>, and the default 1 for \<^verbatim>\<open>Delta\<close> and \<^verbatim>\<open>Fuzz\<close>. \<^verbatim>\<open>Wah\<close> and
  \<^verbatim>\<open>Tremolo\<close> divide a float by \<^verbatim>\<open>SF\<close>, which raises ZeroDivisionError at rate 0.
\<close>

definition instantiate :: "effect \<Rightarrow> nat \<Rightarrow> nat \<Rightarrow> error + RTProcessor" where
  "instantiate c rate channels =
     (case c of
        Delta \<Rightarrow> Inr (RTProcessor_init Delta rate channels 1)
      | Echo \<Rightarrow> Inr (RTProcessor_init Echo rate channels rate)
      | Recursive_Echo \<Rightarrow> Inr (RTProcessor_init Recursive_Echo rate channels rate)
      | Natural_Echo \<Rightarrow> Inr (RTProcessor_init Natural_Echo rate channels rate)
      | Reverb \<Rightarrow> Inr (RTProcessor_init Reverb rate channels rate)
      | Biquad \<Rightarrow> Inr (RTProcessor_init Biquad rate channels 2)
      | Fuzz \<Rightarrow> Inr (RTProcessor_init Fuzz rate channels 1)
      | Wah \<Rightarrow> (if rate = 0 then Inl ZeroDivisionError
                else Inr (RTProcessor_init Wah rate channels 2))
      | Tremolo \<Rightarrow> (if rate = 0 then Inl ZeroDivisionError
                    else Inr (RTProcessor_init Tremolo rate channels 1)))"

text \<open>
  \<^verbatim>\<open>_process\<close>, the method each class overrides (\<^verbatim>\<open>Delta\<close> inherits the pass-through
  of the base class). It returns the output sample and the instance, whose phase
  \<^verbatim>\<open>omega\<close> the two oscillating effects advance.
\<close>

definition Wah_d :: "real \<Rightarrow> real" where
  "Wah_d w = Wah_pole_delta * (1.0 + cos w) / 2.0"

definition Tremolo_gain :: "real \<Rightarrow> real" where
  "Tremolo_gain w = (1.0 - Tremolo_depth) + Tremolo_depth * 0.5 * (1 + cos w)"

definition process_priv :: "RTProcessor \<Rightarrow> real \<times> RTProcessor" where
  "process_priv p =
     (case cls p of
        Delta \<Rightarrow> (get (x p) 0, p)
      | Echo \<Rightarrow>
          (Echo_norm * (Echo_a * get (x p) 0 + Echo_b * get (x p) (Echo_N (SF p))
                        + Echo_c * get (x p) (2 * Echo_N (SF p))), p)
      | Recursive_Echo \<Rightarrow>
          (Recursive_Echo_norm *
             (get (x p) 0 + Recursive_Echo_a * get (y p) (Recursive_Echo_N (SF p))), p)
      | Natural_Echo \<Rightarrow>
          (get (x p) 0 - Natural_Echo_l * get (x p) 1 + Natural_Echo_l * get (y p) 1
             + Natural_Echo_a * (1 - Natural_Echo_l) * get (y p) (Natural_Echo_N (SF p)), p)
      | Reverb \<Rightarrow>
          (Reverb_norm * (- get (x p) 0 + get (x p) (Reverb_N (SF p))
                          + Reverb_a * get (y p) (Reverb_N (SF p))), p)
      | Biquad \<Rightarrow>
          (Biquad_norm * (get (x p) 0 + Biquad_b1 * get (x p) 1 + Biquad_b2 * get (x p) 2
                          - Biquad_a1 * get (y p) 1 - Biquad_a2 * get (y p) 2), p)
      | Fuzz \<Rightarrow>
          (let v = get (x p) 0;
               v = (if v > Fuzz_limit then Fuzz_limit else v);
               v = (if v < - Fuzz_limit then - Fuzz_limit else v)
           in (Fuzz_G * v, p))
      | Wah \<Rightarrow>
          (let d = Wah_d (omega p);
               q = p\<lparr>omega := omega p + Wah_phi (SF p)\<rparr>;
               b1 = - 2.0 * Wah_zero_mag * cos (Wah_zero_phase + d);
               a1 = - 2.0 * Wah_pole_mag * cos (Wah_pole_phase + d)
           in (0.3 * (get (x q) 0 + b1 * get (x q) 1 + Wah_b2 * get (x q) 2
                      - a1 * get (y q) 1 - Wah_a2 * get (y q) 2), q))
      | Tremolo \<Rightarrow>
          (let q = p\<lparr>omega := omega p + Tremolo_phi (SF p)\<rparr>
           in (Tremolo_gain (omega q) * get (x q) 0, q)))"

text \<open>
  \<^verbatim>\<open>process\<close>: push the sample into \<^verbatim>\<open>x\<close>, call \<^verbatim>\<open>_process\<close>, push its result
  into \<^verbatim>\<open>y\<close>, return it.
\<close>

definition process :: "RTProcessor \<Rightarrow> real \<Rightarrow> real \<times> RTProcessor" where
  "process p sample =
     (let p1 = p\<lparr>x := push (x p) sample\<rparr>;
          (out, p2) = process_priv p1;
          p3 = p2\<lparr>y := push (y p2) out\<rparr>
      in (out, p3))"

text \<open>
  Feeding a sequence of samples to one instance, one call of \<^verbatim>\<open>process\<close> per sample
  in order, as the audio callback of \<^verbatim>\<open>demo.py\<close> does over a block: the outputs and the
  instance afterwards.
\<close>

fun process_seq :: "RTProcessor \<Rightarrow> real list \<Rightarrow> real list \<times> RTProcessor" where
  "process_seq p [] = ([], p)"
| "process_seq p (s # ss) =
     (let (out, p1) = process p s; (outs, p2) = process_seq p1 ss in (out # outs, p2))"

section \<open>The control loop of \<^verbatim>\<open>demo.py\<close>\<close>

text \<open>
  \<^verbatim>\<open>main\<close> lists the classes defined in the module \<^verbatim>\<open>guitar_effects\<close> (\<^verbatim>\<open>Delta\<close> is
  imported there from \<^verbatim>\<open>rtprocessor\<close> and filtered out), sorts them by their attribute
  \<^verbatim>\<open>order\<close> and numbers them from 1 in the dictionary \<^verbatim>\<open>choices\<close>, whose key 0 is
  \<^verbatim>\<open>Delta\<close>. The orders are pairwise different, so the class name, the second
  component of the sorted pairs, never decides.
\<close>

definition RATE :: nat where "RATE = 16000"
definition CHANNELS :: nat where "CHANNELS = 1"

fun order :: "effect \<Rightarrow> nat" where
  "order Delta = 0"
| "order Echo = 10"
| "order Recursive_Echo = 20"
| "order Natural_Echo = 30"
| "order Reverb = 40"
| "order Biquad = 50"
| "order Fuzz = 60"
| "order Wah = 70"
| "order Tremolo = 80"

fun defined_in_guitar_effects :: "effect \<Rightarrow> bool" where
  "defined_in_guitar_effects Delta = False"
| "defined_in_guitar_effects _ = True"

text \<open>The classes of the module in the order of \<^verbatim>\<open>inspect.getmembers\<close>, by name.\<close>

definition members :: "effect list" where
  "members = [Biquad, Delta, Echo, Fuzz, Natural_Echo, Recursive_Echo, Reverb, Tremolo, Wah]"

definition choices :: "(int \<times> effect) list" where
  "choices =
     (let p = sort_key order (filter defined_in_guitar_effects members)
      in (0, Delta) # zip (map (\<lambda>i. int i + 1) [0..<length p]) p)"

text \<open>
  One turn of the loop of \<^verbatim>\<open>main\<close> on the polled key: \<^verbatim>\<open>q\<close> leaves the loop; any
  other key is reduced by \<^verbatim>\<open>ord('0')\<close> and looked up in \<^verbatim>\<open>choices\<close>. A missing key
  raises KeyError, which the loop catches and passes over; a key that is there
  constructs the processor of that class at \<open>RATE\<close> and \<open>CHANNELS\<close> and assigns it to
  the variable \<^verbatim>\<open>processor\<close> the callback reads. No other exception is caught.
\<close>

datatype turn = Break | Next RTProcessor | Abort error

definition ord_q :: int where "ord_q = 113"
definition ord_0 :: int where "ord_0 = 48"

definition control_turn :: "int \<Rightarrow> RTProcessor \<Rightarrow> turn" where
  "control_turn key processor =
     (if key = ord_q then Break
      else (let k = key - ord_0
            in case map_of choices k of
                 None \<Rightarrow> Next processor
               | Some c \<Rightarrow> (case instantiate c RATE CHANNELS of
                             Inl e \<Rightarrow> Abort e
                           | Inr p \<Rightarrow> Next p)))"

section \<open>The difference equation of the specification for \<open>Biquad\<close>\<close>

text \<open>
  This definition follows the words of the specification, not the code: \<open>x[n-k]\<close> is the
  input \<open>k\<close> samples before the current one, \<open>y[n-k]\<close> the output \<open>k\<close> samples before
  the current one, and both are 0 before the first sample. \<open>delayed zs n k\<close> is
  \<open>zs[n-k]\<close>, and \<open>Biquad_equation ss outs n\<close> says that the outputs \<open>outs\<close> on the
  inputs \<open>ss\<close> satisfy the equation of the specification at index \<open>n\<close>.
\<close>

definition delayed :: "real list \<Rightarrow> nat \<Rightarrow> nat \<Rightarrow> real" where
  "delayed zs n k = (if k \<le> n then zs ! (n - k) else 0)"

definition Biquad_equation :: "real list \<Rightarrow> real list \<Rightarrow> nat \<Rightarrow> bool" where
  "Biquad_equation ss outs n \<longleftrightarrow>
     outs ! n = Biquad_norm * (delayed ss n 0 + Biquad_b1 * delayed ss n 1
                               + Biquad_b2 * delayed ss n 2
                               - Biquad_a1 * delayed outs n 1 - Biquad_a2 * delayed outs n 2)"

section \<open>Properties of the buffer\<close>

lemma cb_ok_init: "cb_ok (CircularBuffer_init m)"
  by (simp add: cb_ok_def CircularBuffer_init_def Let_def)

lemma cb_ok_push: "cb_ok b \<Longrightarrow> cb_ok (push b v)"
  by (simp add: cb_ok_def push_def Let_def)

lemma length_cb_push [simp]: "length_cb (push b v) = length_cb b"
  by (simp add: push_def Let_def)

lemma length_cb_init [simp]: "length_cb (CircularBuffer_init m) = int m + 1"
  by (simp add: CircularBuffer_init_def Let_def)

lemma mod_in_buf:
  assumes "cb_ok b"
  shows "0 \<le> k mod length_cb b \<and> nat (k mod length_cb b) < length (buf b)"
proof -
  have l: "0 < length_cb b" "int (length (buf b)) = length_cb b"
    using assms by (simp_all add: cb_ok_def)
  have "0 \<le> k mod length_cb b" "k mod length_cb b < int (length (buf b))"
    using l by simp_all
  then show ?thesis by linarith
qed

lemma get_index_range:
  "cb_ok b \<Longrightarrow> 0 \<le> get_index b n \<and> nat (get_index b n) < length (buf b)"
  unfolding get_index_def by (rule mod_in_buf)

lemma get_push_0:
  assumes "cb_ok b"
  shows "get (push b v) 0 = v"
proof -
  have "nat ((ix b + 1) mod length_cb b) < length (buf b)"
    using mod_in_buf [OF assms] by blast
  moreover have "0 < length_cb b" using assms by (simp add: cb_ok_def)
  ultimately show ?thesis
    by (simp add: push_def get_def get_index_def Let_def)
qed

lemma get_push_Suc:
  assumes ok: "cb_ok b" and i: "0 < i" "i < length_cb b"
  shows "get (push b v) i = get b (i - 1)"
proof -
  let ?l = "length_cb b"
  have l: "0 < ?l" using ok by (simp add: cb_ok_def)
  have "((ix b + 1) mod ?l + (?l - i)) mod ?l = ((ix b + 1) + (?l - i)) mod ?l"
    by (rule mod_add_left_eq)
  then have idx: "((ix b + 1) mod ?l + ?l - i) mod ?l = (ix b + ?l - (i - 1)) mod ?l"
    by (simp add: algebra_simps)
  have "(ix b + ?l - (i - 1)) mod ?l \<noteq> (ix b + 1) mod ?l"
  proof
    assume "(ix b + ?l - (i - 1)) mod ?l = (ix b + 1) mod ?l"
    then have "?l dvd (ix b + ?l - (i - 1)) - (ix b + 1)"
      by (simp only: mod_eq_dvd_iff)
    moreover have "(ix b + ?l - (i - 1)) - (ix b + 1) = ?l - i" by simp
    ultimately have d: "?l dvd ?l - i" by simp
    have "?l dvd ?l - (?l - i)" by (rule dvd_diff [OF dvd_refl d])
    then have "?l dvd i" by simp
    then show False using i by (simp add: zdvd_not_zless)
  qed
  then have "nat ((ix b + ?l - (i - 1)) mod ?l) \<noteq> nat ((ix b + 1) mod ?l)"
    using l by (simp add: nat_eq_iff)
  then show ?thesis
    using idx by (simp add: push_def get_def get_index_def Let_def)
qed

lemma holds_init: "holds (CircularBuffer_init m) []"
  unfolding holds_def
proof (intro conjI allI impI)
  show "cb_ok (CircularBuffer_init m)" by (rule cb_ok_init)
next
  fix i :: nat
  assume "int i < length_cb (CircularBuffer_init m)"
  have "nat (get_index (CircularBuffer_init m) (int i)) < length (buf (CircularBuffer_init m))"
    using get_index_range [OF cb_ok_init] by blast
  then show "get (CircularBuffer_init m) (int i) = past [] i"
    by (simp add: get_def past_def CircularBuffer_init_def Let_def)
qed

lemma past_snoc_0: "past (vs @ [v]) 0 = v"
  by (simp add: past_def)

lemma past_snoc_Suc: "past (vs @ [v]) (Suc i) = past vs i"
  by (simp add: past_def)

lemma holds_push:
  assumes "holds b vs"
  shows "holds (push b v) (vs @ [v])"
  unfolding holds_def
proof (intro conjI allI impI)
  show "cb_ok (push b v)" using assms by (simp add: holds_def cb_ok_push)
next
  fix i :: nat
  assume i: "int i < length_cb (push b v)"
  have ok: "cb_ok b" using assms by (simp add: holds_def)
  show "get (push b v) (int i) = past (vs @ [v]) i"
  proof (cases i)
    case 0
    then show ?thesis using get_push_0 [OF ok] by (simp add: past_snoc_0)
  next
    case (Suc j)
    have "get (push b v) (int i) = get b (int i - 1)"
      using i Suc by (intro get_push_Suc [OF ok]) simp_all
    also have "int i - 1 = int j" using Suc by simp
    also have "get b (int j) = past vs j"
      using assms i Suc by (simp add: holds_def)
    finally show ?thesis using Suc by (simp add: past_snoc_Suc)
  qed
qed

lemma holds_foldl:
  "holds b us \<Longrightarrow> holds (foldl push b vs) (us @ vs)"
proof (induction vs arbitrary: b us)
  case Nil
  then show ?case by simp
next
  case (Cons v vs)
  from holds_push [OF Cons.prems, of v]
  have "holds (foldl push (push b v) vs) ((us @ [v]) @ vs)" by (rule Cons.IH)
  then show ?case by simp
qed


lemma holds_get: "holds b vs \<Longrightarrow> int i < length_cb b \<Longrightarrow> get b (int i) = past vs i"
  by (simp add: holds_def)

lemma holds_get_0: "holds b vs \<Longrightarrow> get b 0 = past vs 0"
  using holds_get [of b vs 0] by (simp add: holds_def cb_ok_def)

lemma holds_get_nat:
  "holds b vs \<Longrightarrow> 0 \<le> n \<Longrightarrow> n < length_cb b \<Longrightarrow> get b n = past vs (nat n)"
  using holds_get [of b vs "nat n"] by simp

lemma length_cb_foldl [simp]: "length_cb (foldl push b vs) = length_cb b"
  by (induction vs rule: rev_induct) simp_all

section \<open>Properties of the processor\<close>

lemma process_priv_keeps:
  "x (snd (process_priv p)) = x p \<and> y (snd (process_priv p)) = y p
   \<and> cls (snd (process_priv p)) = cls p \<and> SF (snd (process_priv p)) = SF p"
  by (cases "cls p") (simp_all add: process_priv_def Let_def)

lemma process_unfold:
  "process p s =
     (fst (process_priv (p\<lparr>x := push (x p) s\<rparr>)),
      (snd (process_priv (p\<lparr>x := push (x p) s\<rparr>)))
        \<lparr>y := push (y (snd (process_priv (p\<lparr>x := push (x p) s\<rparr>))))
                    (fst (process_priv (p\<lparr>x := push (x p) s\<rparr>)))\<rparr>)"
  by (simp add: process_def Let_def split_beta)

lemma process_fst: "fst (process p s) = fst (process_priv (p\<lparr>x := push (x p) s\<rparr>))"
  by (simp add: process_unfold)

lemma process_x: "x (snd (process p s)) = push (x p) s"
  by (simp add: process_unfold process_priv_keeps)

lemma process_y: "y (snd (process p s)) = push (y p) (fst (process p s))"
  by (simp add: process_unfold process_priv_keeps)

lemma process_cls: "cls (snd (process p s)) = cls p"
  by (simp add: process_unfold process_priv_keeps)

lemma process_SF: "SF (snd (process p s)) = SF p"
  by (simp add: process_unfold process_priv_keeps)

lemma process_seq_Cons:
  "process_seq p (s # ss) =
     (fst (process p s) # fst (process_seq (snd (process p s)) ss),
      snd (process_seq (snd (process p s)) ss))"
  by (simp add: Let_def split: prod.split)

lemma process_seq_length: "length (fst (process_seq p ss)) = length ss"
  by (induction ss arbitrary: p) (simp_all add: process_seq_Cons del: process_seq.simps(2))

lemma process_seq_append:
  "process_seq p (ss @ ts) =
     (fst (process_seq p ss) @ fst (process_seq (snd (process_seq p ss)) ts),
      snd (process_seq (snd (process_seq p ss)) ts))"
  by (induction ss arbitrary: p) (simp_all add: process_seq_Cons del: process_seq.simps(2))

lemma process_seq_snoc:
  "process_seq p (ss @ [s]) =
     (fst (process_seq p ss) @ [fst (process (snd (process_seq p ss)) s)],
      snd (process (snd (process_seq p ss)) s))"
  by (simp add: process_seq_append process_seq_Cons del: process_seq.simps(2))

lemma process_seq_take:
  "fst (process_seq p (take n ss)) = take n (fst (process_seq p ss))"
proof -
  have "process_seq p ss = process_seq p (take n ss @ drop n ss)" by simp
  also have "fst \<dots> = fst (process_seq p (take n ss))
      @ fst (process_seq (snd (process_seq p (take n ss))) (drop n ss))"
    by (simp only: process_seq_append fst_conv)
  finally show ?thesis
    by (simp add: process_seq_length min_def)
qed

lemma process_seq_nth:
  assumes "n < length ss"
  shows "fst (process_seq p ss) ! n = fst (process (snd (process_seq p (take n ss))) (ss ! n))"
proof -
  have "take (Suc n) ss = take n ss @ [ss ! n]"
    using assms by (simp add: take_Suc_conv_app_nth)
  then have "fst (process_seq p (take (Suc n) ss))
      = fst (process_seq p (take n ss)) @ [fst (process (snd (process_seq p (take n ss))) (ss ! n))]"
    by (simp only: process_seq_snoc fst_conv)
  moreover have "fst (process_seq p (take (Suc n) ss)) ! n = fst (process_seq p ss) ! n"
    by (simp add: process_seq_take)
  moreover have "length (fst (process_seq p (take n ss))) = n"
    using assms by (simp add: process_seq_length)
  ultimately show ?thesis by (simp add: nth_append)
qed

lemma process_seq_state:
  assumes "holds (x p) hx" "holds (y p) hy"
  shows "holds (x (snd (process_seq p ss))) (hx @ ss)
       \<and> holds (y (snd (process_seq p ss))) (hy @ fst (process_seq p ss))
       \<and> cls (snd (process_seq p ss)) = cls p \<and> SF (snd (process_seq p ss)) = SF p"
  using assms
proof (induction ss arbitrary: p hx hy)
  case Nil
  then show ?case by simp
next
  case (Cons s ss)
  let ?q = "snd (process p s)"
  have hxq: "holds (x ?q) (hx @ [s])"
    using holds_push [OF Cons.prems(1)] by (simp add: process_x)
  have hyq: "holds (y ?q) (hy @ [fst (process p s)])"
    using holds_push [OF Cons.prems(2)] by (simp add: process_y)
  from Cons.IH [OF hxq hyq] show ?case
    by (simp add: process_seq_Cons process_cls process_SF del: process_seq.simps(2))
qed

lemma init_holds:
  "holds (x (RTProcessor_init c rate ch m)) [] \<and> holds (y (RTProcessor_init c rate ch m)) []"
  by (simp add: RTProcessor_init_def holds_init)


section \<open>The claims\<close>

text \<open>
  C2: for every instance and every sample, \<open>process\<close> pushes the sample into the input
  history, obtains the output from the effect's transform on the instance with that
  sample already pushed, pushes that output into the output history and returns it; each of
  the two histories receives exactly this one push.
\<close>

theorem process_push_compute_push:
  "fst (process p s) = fst (process_priv (p\<lparr>x := push (x p) s\<rparr>))
   \<and> x (snd (process p s)) = push (x p) s
   \<and> y (snd (process p s)) = push (y p) (fst (process p s))"
  by (simp add: process_fst process_x process_y)

text \<open>
  C3: after pushing \<open>v0, ..., vk\<close> into a buffer constructed with \<open>max_delay\<close>,
  \<open>get i\<close> is \<open>v(k-i)\<close> for every \<open>i\<close> up to \<open>min k max_delay\<close>; in particular
  \<open>get 0\<close> is the value pushed last.
\<close>

theorem CircularBuffer_round_trip:
  assumes "length vs = Suc k" and "i \<le> min k max_delay"
  shows "get (foldl push (CircularBuffer_init max_delay) vs) (int i) = vs ! (k - i)
       \<and> get (foldl push (CircularBuffer_init max_delay) vs) 0 = last vs"
proof -
  let ?b = "foldl push (CircularBuffer_init max_delay) vs"
  have h: "holds ?b vs"
    using holds_foldl [OF holds_init, of max_delay vs] by simp
  have len: "length_cb ?b = int max_delay + 1" by simp
  have ne: "vs \<noteq> []" using assms(1) by auto
  have "get ?b (int i) = past vs i"
    using h assms(2) len by (simp add: holds_def)
  also have "\<dots> = vs ! (k - i)"
    using assms by (simp add: past_def rev_nth)
  finally have 1: "get ?b (int i) = vs ! (k - i)" .
  have "get ?b 0 = past vs 0"
    using h by (rule holds_get_0)
  also have "\<dots> = last vs"
    using ne by (simp add: past_def hd_rev hd_conv_nth [symmetric])
  finally show ?thesis using 1 by simp
qed

theorem CircularBuffer_round_trip_witness:
  "length [5, 6, 7, 8 :: real] = Suc 3 \<and> (2::nat) \<le> min 3 2
   \<and> get (foldl push (CircularBuffer_init 2) [5, 6, 7, 8]) (int 2) = [5, 6, 7, 8] ! (3 - 2)
   \<and> get (foldl push (CircularBuffer_init 2) [5, 6, 7, 8]) 0 = 8"
  using CircularBuffer_round_trip [of "[5, 6, 7, 8]" 3 2 2] by simp







text \<open>
  C9: the constructor of every effect ignores its argument \<open>channels\<close>: two instances
  of one effect at one sampling rate are equal whatever the channel counts, and so are
  their outputs on any input sequence.
\<close>

theorem channels_never_read:
  "instantiate c rate channels1 = instantiate c rate channels2
   \<and> map_sum id (\<lambda>p. fst (process_seq p ss)) (instantiate c rate channels1)
     = map_sum id (\<lambda>p. fst (process_seq p ss)) (instantiate c rate channels2)"
proof -
  have "instantiate c rate channels1 = instantiate c rate channels2"
    by (cases c) (simp_all add: instantiate_def RTProcessor_init_def)
  then show ?thesis by simp
qed


section \<open>Silence\<close>

lemma silent_get:
  assumes "cb_ok b" and "set (buf b) \<subseteq> {0}"
  shows "get b n = 0"
proof -
  have "nat (get_index b n) < length (buf b)"
    using get_index_range [OF assms(1)] by blast
  then have "buf b ! nat (get_index b n) \<in> set (buf b)" by (rule nth_mem)
  then show ?thesis using assms(2) by (auto simp: get_def)
qed

lemma silent_push: "set (buf b) \<subseteq> {0} \<Longrightarrow> set (buf (push b 0)) \<subseteq> {0}"
  using set_update_subset_insert [of "buf b" _ 0]
  by (simp add: push_def Let_def) blast

lemma Fuzz_limit_pos: "0 < Fuzz_limit"
  by (simp add: Fuzz_limit_def Fuzz_T_def)

lemma silent_process_priv:
  assumes "cb_ok (x p)" "cb_ok (y p)" "set (buf (x p)) \<subseteq> {0}" "set (buf (y p)) \<subseteq> {0}"
  shows "fst (process_priv p) = 0"
proof -
  have gx: "get (x p) n = 0" for n using assms(1,3) by (rule silent_get)
  have gy: "get (y p) n = 0" for n using assms(2,4) by (rule silent_get)
  show ?thesis
    using Fuzz_limit_pos
    by (cases "cls p") (simp_all add: process_priv_def Let_def gx gy)
qed

lemma silent_process:
  assumes "cb_ok (x p)" "cb_ok (y p)" "set (buf (x p)) \<subseteq> {0}" "set (buf (y p)) \<subseteq> {0}"
  shows "fst (process p 0) = 0
       \<and> cb_ok (x (snd (process p 0))) \<and> cb_ok (y (snd (process p 0)))
       \<and> set (buf (x (snd (process p 0)))) \<subseteq> {0} \<and> set (buf (y (snd (process p 0)))) \<subseteq> {0}"
proof -
  let ?p1 = "p\<lparr>x := push (x p) 0\<rparr>"
  have "fst (process_priv ?p1) = 0"
    using assms by (intro silent_process_priv) (simp_all add: cb_ok_push silent_push)
  then have out: "fst (process p 0) = 0" by (simp add: process_fst)
  then show ?thesis
    using assms by (simp add: process_x process_y cb_ok_push silent_push)
qed

lemma silent_process_seq:
  assumes "cb_ok (x p)" "cb_ok (y p)" "set (buf (x p)) \<subseteq> {0}" "set (buf (y p)) \<subseteq> {0}"
  shows "fst (process_seq p (replicate n 0)) = replicate n 0"
  using assms
proof (induction n arbitrary: p)
  case 0
  then show ?case by simp
next
  case (Suc n)
  from silent_process [OF Suc.prems] Suc.IH [of "snd (process p 0)"]
  show ?case by (simp add: process_seq_Cons del: process_seq.simps(2))
qed

lemma instantiate_cases:
  assumes "instantiate c rate channels = Inr p"
  shows "\<exists>m. p = RTProcessor_init c rate channels m"
  using assms by (cases c) (auto simp: instantiate_def split: if_splits)

text \<open>
  C5: for every effect of the catalogue and every length, an instance that the constructor
  has just built answers an all-zero input sequence of that length with an all-zero
  output sequence.
\<close>

theorem silence_in_silence_out:
  assumes "instantiate c rate channels = Inr p"
  shows "fst (process_seq p (replicate n 0)) = replicate n 0"
proof -
  obtain m where p: "p = RTProcessor_init c rate channels m"
    using instantiate_cases [OF assms] by blast
  have "set (buf (CircularBuffer_init m)) \<subseteq> {0}"
    by (simp add: CircularBuffer_init_def Let_def)
  then show ?thesis
    unfolding p by (intro silent_process_seq) (simp_all add: RTProcessor_init_def cb_ok_init)
qed

theorem silence_in_silence_out_witness:
  "instantiate Wah 10 1 = Inr (RTProcessor_init Wah 10 1 2)
   \<and> fst (process_seq (RTProcessor_init Wah 10 1 2) (replicate 4 0)) = replicate 4 0"
  using silence_in_silence_out [of Wah 10 1 "RTProcessor_init Wah 10 1 2" 4]
  by (simp add: instantiate_def)

text \<open>
  C6: on every instance of \<open>Fuzz\<close>, whatever it has processed before, \<open>process s\<close> returns
  \<open>G * s\<close> when \<open>s\<close> lies between \<open>- limit\<close> and \<open>limit\<close>, both bounds included,
  \<open>G * limit\<close> when \<open>s\<close> is above \<open>limit\<close> and \<open>- G * limit\<close> when it is below
  \<open>- limit\<close>, with \<open>limit = 2147483647 * 0.005\<close> and \<open>G = 5\<close>.
\<close>

theorem Fuzz_clamps:
  assumes "instantiate Fuzz rate channels = Inr p0" and "p = snd (process_seq p0 ss)"
  shows "fst (process p s) =
           (if s > Fuzz_limit then Fuzz_G * Fuzz_limit
            else if s < - Fuzz_limit then - Fuzz_G * Fuzz_limit
            else Fuzz_G * s)
       \<and> Fuzz_limit = 2147483647 * 0.005 \<and> Fuzz_G = 5"
proof -
  have p0: "p0 = RTProcessor_init Fuzz rate channels 1"
    using assms(1) by (simp add: instantiate_def)
  have st: "holds (x p) ([] @ ss) \<and> holds (y p) ([] @ fst (process_seq p0 ss))
      \<and> cls p = cls p0 \<and> SF p = SF p0"
    unfolding assms(2) using init_holds [of Fuzz rate channels 1]
    by (intro process_seq_state) (simp_all add: p0)
  then have ok: "cb_ok (x p)" and c: "cls p = Fuzz"
    by (simp_all add: holds_def p0 RTProcessor_init_def)
  have "get (push (x p) s) 0 = s" using ok by (rule get_push_0)
  then have "fst (process p s) =
           (if s > Fuzz_limit then Fuzz_G * Fuzz_limit
            else if s < - Fuzz_limit then - Fuzz_G * Fuzz_limit
            else Fuzz_G * s)"
    using Fuzz_limit_pos c by (simp add: process_fst process_priv_def Let_def)
  then show ?thesis by (simp add: Fuzz_limit_def Fuzz_T_def Fuzz_G_def)
qed

theorem Fuzz_clamps_witness:
  "instantiate Fuzz 16000 1 = Inr (RTProcessor_init Fuzz 16000 1 1)
   \<and> fst (process (snd (process_seq (RTProcessor_init Fuzz 16000 1 1) [3, -4])) Fuzz_limit)
       = Fuzz_G * Fuzz_limit
   \<and> fst (process (snd (process_seq (RTProcessor_init Fuzz 16000 1 1) [3, -4])) (- Fuzz_limit))
       = - Fuzz_G * Fuzz_limit
   \<and> fst (process (snd (process_seq (RTProcessor_init Fuzz 16000 1 1) [3, -4])) (Fuzz_limit + 1))
       = Fuzz_G * Fuzz_limit
   \<and> fst (process (snd (process_seq (RTProcessor_init Fuzz 16000 1 1) [3, -4])) 2) = 10"
proof -
  have c: "instantiate Fuzz 16000 1 = Inr (RTProcessor_init Fuzz 16000 1 1)"
    by (simp add: instantiate_def)
  note f = Fuzz_clamps [OF c refl, of "[3, -4]"]
  show ?thesis
    using c f [of Fuzz_limit] f [of "- Fuzz_limit"] f [of "Fuzz_limit + 1"] f [of 2]
    by simp
qed


lemma choices_eq:
  "choices = [(0, Delta), (1, Echo), (2, Recursive_Echo), (3, Natural_Echo), (4, Reverb),
              (5, Biquad), (6, Fuzz), (7, Wah), (8, Tremolo)]"
  by (simp add: choices_def members_def)

lemma choices_dom: "map_of choices k \<noteq> None \<longleftrightarrow> 0 \<le> k \<and> k < int (length choices)"
proof -
  have "map_of choices k \<noteq> None \<longleftrightarrow> k \<in> {0, 1, 2, 3, 4, 5, 6, 7, 8}"
    by (simp add: choices_eq)
  also have "\<dots> \<longleftrightarrow> 0 \<le> k \<and> k < 9" by auto
  finally show ?thesis by (simp add: choices_eq)
qed

lemma instantiate_RATE: "\<exists>q. instantiate c RATE CHANNELS = Inr q"
  by (cases c) (simp_all add: instantiate_def RATE_def)

text \<open>
  C8: in one turn of the control loop on a key other than the quit key, a selection
  \<open>key - ord_0\<close> outside the range \<open>0 .. count - 1\<close> of the keys of \<open>choices\<close>
  leaves the active processor as it is and the loop goes on; a selection inside the range
  replaces it by a newly instantiateed instance of the chosen class. No turn ends in an
  uncaught exception, and the quit key ends the loop without instantiateing anything.
\<close>

theorem selection_out_of_range_is_no_op:
  "(key \<noteq> ord_q \<and> \<not> (0 \<le> key - ord_0 \<and> key - ord_0 < int (length choices))
      \<longrightarrow> control_turn key processor = Next processor)
   \<and> (key \<noteq> ord_q \<and> 0 \<le> key - ord_0 \<and> key - ord_0 < int (length choices)
      \<longrightarrow> (\<exists>c q. map_of choices (key - ord_0) = Some c
                 \<and> instantiate c RATE CHANNELS = Inr q
                 \<and> control_turn key processor = Next q))
   \<and> (key = ord_q \<longrightarrow> control_turn key processor = Break)
   \<and> (\<forall>e. control_turn key processor \<noteq> Abort e)"
proof -
  have quit: "key = ord_q \<longrightarrow> control_turn key processor = Break"
    by (simp add: control_turn_def)
  have out: "control_turn key processor = Next processor"
    if "key \<noteq> ord_q" "\<not> (0 \<le> key - ord_0 \<and> key - ord_0 < int (length choices))"
  proof -
    have "map_of choices (key - ord_0) = None"
      using that(2) choices_dom [of "key - ord_0"] by blast
    then show ?thesis using that(1) by (simp add: control_turn_def)
  qed
  have ins: "\<exists>c q. map_of choices (key - ord_0) = Some c
                 \<and> instantiate c RATE CHANNELS = Inr q
                 \<and> control_turn key processor = Next q"
    if nq: "key \<noteq> ord_q" and rg: "0 \<le> key - ord_0 \<and> key - ord_0 < int (length choices)"
  proof -
    obtain c where c: "map_of choices (key - ord_0) = Some c"
      using rg choices_dom [of "key - ord_0"] by blast
    obtain q where q: "instantiate c RATE CHANNELS = Inr q"
      using instantiate_RATE by blast
    have "control_turn key processor = Next q"
      using nq c q by (simp add: control_turn_def)
    then show ?thesis using c q by blast
  qed
  have "control_turn key processor \<noteq> Abort e" for e
  proof (cases "key = ord_q")
    case True
    then show ?thesis by (simp add: control_turn_def)
  next
    case False
    show ?thesis
    proof (cases "0 \<le> key - ord_0 \<and> key - ord_0 < int (length choices)")
      case True
      from ins [OF False True] show ?thesis by auto
    next
      case False2: False
      from out [OF False False2] show ?thesis by simp
    qed
  qed
  then show ?thesis using quit out ins by blast
qed

theorem selection_out_of_range_is_no_op_witness:
  "control_turn 57 (RTProcessor_init Fuzz 16000 1 1) = Next (RTProcessor_init Fuzz 16000 1 1)
   \<and> control_turn 0 (RTProcessor_init Fuzz 16000 1 1) = Next (RTProcessor_init Fuzz 16000 1 1)
   \<and> control_turn 53 (RTProcessor_init Fuzz 16000 1 1) = Next (RTProcessor_init Biquad 16000 1 2)
   \<and> control_turn 113 (RTProcessor_init Fuzz 16000 1 1) = Break
   \<and> length choices = 9"
proof -
  note t = selection_out_of_range_is_no_op [where processor = "RTProcessor_init Fuzz 16000 1 1"]
  have "map_of choices 5 = Some Biquad" by (simp add: choices_eq)
  moreover have "instantiate Biquad RATE CHANNELS = Inr (RTProcessor_init Biquad 16000 1 2)"
    by (simp add: instantiate_def RATE_def CHANNELS_def)
  ultimately show ?thesis
    using t [of 57] t [of 0] t [of 53] t [of 113]
    by (simp add: ord_q_def ord_0_def choices_eq)
qed


section \<open>The oscillator phase\<close>

lemma process_omega_Tremolo:
  "cls p = Tremolo \<Longrightarrow> omega (snd (process p s)) = omega p + Tremolo_phi (SF p)"
  by (simp add: process_unfold process_priv_def Let_def)

lemma process_omega_Wah:
  "cls p = Wah \<Longrightarrow> omega (snd (process p s)) = omega p + Wah_phi (SF p)"
  by (simp add: process_unfold process_priv_def Let_def)

lemma process_seq_omega_Tremolo:
  "cls p = Tremolo \<Longrightarrow>
     omega (snd (process_seq p ss)) = omega p + real (length ss) * Tremolo_phi (SF p)"
proof (induction ss arbitrary: p)
  case Nil
  then show ?case by simp
next
  case (Cons s ss)
  have "cls (snd (process p s)) = Tremolo" using Cons.prems by (simp add: process_cls)
  from Cons.IH [OF this] show ?case
    using Cons.prems
    by (simp add: process_seq_Cons process_SF process_omega_Tremolo algebra_simps
        del: process_seq.simps(2))
qed

lemma process_seq_omega_Wah:
  "cls p = Wah \<Longrightarrow>
     omega (snd (process_seq p ss)) = omega p + real (length ss) * Wah_phi (SF p)"
proof (induction ss arbitrary: p)
  case Nil
  then show ?case by simp
next
  case (Cons s ss)
  have "cls (snd (process p s)) = Wah" using Cons.prems by (simp add: process_cls)
  from Cons.IH [OF this] show ?case
    using Cons.prems
    by (simp add: process_seq_Cons process_SF process_omega_Wah algebra_simps
        del: process_seq.simps(2))
qed

lemma init_fields:
  "cls (RTProcessor_init c rate ch m) = c" "SF (RTProcessor_init c rate ch m) = rate"
  "omega (RTProcessor_init c rate ch m) = 0"
  by (simp_all add: RTProcessor_init_def)

lemma run_state:
  "holds (x (snd (process_seq (RTProcessor_init c rate ch m) ss))) ss
   \<and> holds (y (snd (process_seq (RTProcessor_init c rate ch m) ss)))
       (fst (process_seq (RTProcessor_init c rate ch m) ss))
   \<and> cls (snd (process_seq (RTProcessor_init c rate ch m) ss)) = c
   \<and> SF (snd (process_seq (RTProcessor_init c rate ch m) ss)) = rate"
  using process_seq_state [of "RTProcessor_init c rate ch m" "[]" "[]" ss] init_holds [of c rate ch m]
  by (simp add: init_fields)

text \<open>
  C10: \<open>Tremolo\<close> advances its phase before it takes the cosine, \<open>Wah\<close> after. On a
  newly constructed \<open>Tremolo\<close> the output at index \<open>n\<close> (from 0) is the input sample
  scaled by \<open>(1 - depth) + depth * 0.5 * (1 + cos ((n + 1) * phi))\<close>. On a newly
  constructed \<open>Wah\<close> the phase before sample \<open>n\<close> is \<open>n * phi\<close>, and the output at
  index \<open>n\<close> is the filter formula on the histories with the pole deviation
  \<open>d = pole_delta * (1 + cos (n * phi)) / 2\<close>.
\<close>

theorem Tremolo_advances_before_Wah_after:
  assumes "instantiate Tremolo rate channels = Inr pt"
    and "instantiate Wah rate channels = Inr pw"
    and "n < length ss"
  shows "fst (process_seq pt ss) ! n
           = ((1 - Tremolo_depth) + Tremolo_depth * 0.5 * (1 + cos (real (n + 1) * Tremolo_phi rate)))
             * ss ! n
       \<and> omega (snd (process_seq pw (take n ss))) = real n * Wah_phi rate
       \<and> fst (process_seq pw ss) ! n
           = (let q = snd (process_seq pw (take n ss));
                  xs = push (x q) (ss ! n);
                  d = Wah_pole_delta * (1 + cos (real n * Wah_phi rate)) / 2;
                  b1 = - 2 * Wah_zero_mag * cos (Wah_zero_phase + d);
                  a1 = - 2 * Wah_pole_mag * cos (Wah_pole_phase + d)
              in 0.3 * (get xs 0 + b1 * get xs 1 + Wah_b2 * get xs 2
                        - a1 * get (y q) 1 - Wah_a2 * get (y q) 2))"
proof -
  have pt: "pt = RTProcessor_init Tremolo rate channels 1"
    using assms(1) by (simp add: instantiate_def split: if_splits)
  have pw: "pw = RTProcessor_init Wah rate channels 2"
    using assms(2) by (simp add: instantiate_def split: if_splits)
  let ?qt = "snd (process_seq pt (take n ss))"
  let ?qw = "snd (process_seq pw (take n ss))"
  have len: "length (take n ss) = n" using assms(3) by simp
  have t: "cls ?qt = Tremolo" "SF ?qt = rate" "cb_ok (x ?qt)"
    using run_state [of Tremolo rate channels 1 "take n ss"] by (simp_all add: pt holds_def)
  have ot: "omega ?qt = real n * Tremolo_phi rate"
    using process_seq_omega_Tremolo [of pt "take n ss"] len by (simp add: pt init_fields)
  have "fst (process ?qt (ss ! n))
          = Tremolo_gain (omega ?qt + Tremolo_phi rate) * get (push (x ?qt) (ss ! n)) 0"
    using t(1,2) by (simp add: process_fst process_priv_def Let_def)
  also have "get (push (x ?qt) (ss ! n)) 0 = ss ! n" using t(3) by (rule get_push_0)
  also have "omega ?qt + Tremolo_phi rate = real (n + 1) * Tremolo_phi rate"
    by (simp add: ot algebra_simps)
  finally have 1: "fst (process_seq pt ss) ! n
           = ((1 - Tremolo_depth) + Tremolo_depth * 0.5 * (1 + cos (real (n + 1) * Tremolo_phi rate)))
             * ss ! n"
    using process_seq_nth [OF assms(3), of pt] by (simp add: Tremolo_gain_def)
  have w: "cls ?qw = Wah" "SF ?qw = rate"
    using run_state [of Wah rate channels 2 "take n ss"] by (simp_all add: pw)
  have ow: "omega ?qw = real n * Wah_phi rate"
    using process_seq_omega_Wah [of pw "take n ss"] len by (simp add: pw init_fields)
  have "fst (process ?qw (ss ! n))
      = (let xs = push (x ?qw) (ss ! n);
             d = Wah_pole_delta * (1 + cos (real n * Wah_phi rate)) / 2;
             b1 = - 2 * Wah_zero_mag * cos (Wah_zero_phase + d);
             a1 = - 2 * Wah_pole_mag * cos (Wah_pole_phase + d)
         in 0.3 * (get xs 0 + b1 * get xs 1 + Wah_b2 * get xs 2
                   - a1 * get (y ?qw) 1 - Wah_a2 * get (y ?qw) 2))"
    using w by (simp add: process_fst process_priv_def Let_def Wah_d_def ow)
  then have 3: "fst (process_seq pw ss) ! n
           = (let q = ?qw;
                  xs = push (x q) (ss ! n);
                  d = Wah_pole_delta * (1 + cos (real n * Wah_phi rate)) / 2;
                  b1 = - 2 * Wah_zero_mag * cos (Wah_zero_phase + d);
                  a1 = - 2 * Wah_pole_mag * cos (Wah_pole_phase + d)
              in 0.3 * (get xs 0 + b1 * get xs 1 + Wah_b2 * get xs 2
                        - a1 * get (y q) 1 - Wah_a2 * get (y q) 2))"
    using process_seq_nth [OF assms(3), of pw] by (simp add: Let_def)
  show ?thesis using 1 ow 3 by blast
qed

theorem Tremolo_advances_before_Wah_after_witness:
  "instantiate Tremolo 10 1 = Inr (RTProcessor_init Tremolo 10 1 1)
   \<and> instantiate Wah 10 1 = Inr (RTProcessor_init Wah 10 1 2)
   \<and> (0::nat) < length [7 :: real]
   \<and> fst (process_seq (RTProcessor_init Tremolo 10 1 1) [7]) ! 0
       = ((1 - Tremolo_depth) + Tremolo_depth * 0.5 * (1 + cos (Tremolo_phi 10))) * 7
   \<and> omega (snd (process_seq (RTProcessor_init Wah 10 1 2) [])) = 0
   \<and> fst (process_seq (RTProcessor_init Wah 10 1 2) [7]) ! 0
       = 0.3 * 7"
proof -
  have t: "instantiate Tremolo 10 1 = Inr (RTProcessor_init Tremolo 10 1 1)"
    and w: "instantiate Wah 10 1 = Inr (RTProcessor_init Wah 10 1 2)"
    by (simp_all add: instantiate_def)
  have n: "(0::nat) < length [7 :: real]" by simp
  show ?thesis
    using t w Tremolo_advances_before_Wah_after [OF t w n]
    by (simp add: RTProcessor_init_def CircularBuffer_init_def push_def get_def get_index_def
        Let_def)
qed

section \<open>Histories of a run\<close>

lemma process_seq_length_cb:
  "length_cb (x (snd (process_seq p ss))) = length_cb (x p)
   \<and> length_cb (y (snd (process_seq p ss))) = length_cb (y p)"
  by (induction ss arbitrary: p)
     (simp_all add: process_seq_Cons process_x process_y del: process_seq.simps(2))

lemma past_take:
  assumes "n \<le> length zs"
  shows "past (take n zs) k = (if k < n then zs ! (n - Suc k) else 0)"
  using assms by (simp add: past_def rev_nth min_def)

lemma past_take_delayed:
  assumes "n < length zs"
  shows "past (take (Suc n) zs) k = delayed zs n k"
  using assms by (auto simp: past_take delayed_def)

lemma past_take_delayed_Suc:
  assumes "n \<le> length zs"
  shows "past (take n zs) k = delayed zs n (Suc k)"
  using assms by (auto simp: past_take delayed_def)

text \<open>
  What the instance sees when it computes output \<open>n\<close> of a run from a new instance: at
  offset \<open>k\<close> the input history gives the input \<open>k\<close> samples back, and the output
  history, in which the current output is not yet pushed, gives the output \<open>k + 1\<close>
  samples back.
\<close>

lemma run_histories:
  fixes c :: effect and rate ch m :: nat
  assumes "n < length ss" and "int k \<le> int m"
  defines "q \<equiv> snd (process_seq (RTProcessor_init c rate ch m) (take n ss))"
  defines "outs \<equiv> fst (process_seq (RTProcessor_init c rate ch m) ss)"
  shows "get (push (x q) (ss ! n)) (int k) = delayed ss n k"
    and "get (y q) (int k) = delayed outs n (Suc k)"
    and "cls q = c" and "SF q = rate"
proof -
  let ?p = "RTProcessor_init c rate ch m"
  have st: "holds (x q) (take n ss)" "holds (y q) (fst (process_seq ?p (take n ss)))"
    "cls q = c" "SF q = rate"
    unfolding q_def using run_state [of c rate ch m "take n ss"] by simp_all
  have lx: "length_cb (x q) = int m + 1" and ly: "length_cb (y q) = int m + 1"
    unfolding q_def using process_seq_length_cb [of ?p "take n ss"]
    by (simp_all add: RTProcessor_init_def)
  have "holds (push (x q) (ss ! n)) (take n ss @ [ss ! n])"
    using st(1) by (rule holds_push)
  then have hx: "holds (push (x q) (ss ! n)) (take (Suc n) ss)"
    using assms(1) by (simp add: take_Suc_conv_app_nth)
  have "get (push (x q) (ss ! n)) (int k) = past (take (Suc n) ss) k"
    using hx assms(2) lx by (intro holds_get) simp_all
  then show "get (push (x q) (ss ! n)) (int k) = delayed ss n k"
    using assms(1) by (simp add: past_take_delayed)
  have hy: "holds (y q) (take n outs)"
    using st(2) by (simp add: outs_def process_seq_take)
  have "get (y q) (int k) = past (take n outs) k"
    using hy assms(2) ly by (intro holds_get) simp_all
  moreover have "n \<le> length outs" using assms(1) by (simp add: outs_def process_seq_length)
  ultimately show "get (y q) (int k) = delayed outs n (Suc k)"
    by (simp add: past_take_delayed_Suc)
  show "cls q = c" "SF q = rate" by (rule st)+
qed

section \<open>Biquad\<close>

text \<open>
  The equation the code computes on a new \<open>Biquad\<close>: the two feedback terms read the
  outputs two and three samples back.
\<close>

lemma Biquad_computes:
  fixes rate ch :: nat
  assumes "n < length ss"
  defines "outs \<equiv> fst (process_seq (RTProcessor_init Biquad rate ch 2) ss)"
  shows "outs ! n = Biquad_norm * (delayed ss n 0 + Biquad_b1 * delayed ss n 1
                                   + Biquad_b2 * delayed ss n 2
                                   - Biquad_a1 * delayed outs n 2 - Biquad_a2 * delayed outs n 3)"
proof -
  let ?p = "RTProcessor_init Biquad rate ch 2"
  let ?q = "snd (process_seq ?p (take n ss))"
  note h = run_histories [OF assms(1), of _ 2 Biquad rate ch]
  have g: "get (push (x ?q) (ss ! n)) 0 = delayed ss n 0"
    "get (push (x ?q) (ss ! n)) 1 = delayed ss n 1"
    "get (push (x ?q) (ss ! n)) 2 = delayed ss n 2"
    "get (y ?q) 1 = delayed outs n 2" "get (y ?q) 2 = delayed outs n 3"
    using h(1) [of 0] h(1) [of 1] h(1) [of 2] h(2) [of 1] h(2) [of 2]
    by (simp_all add: outs_def numeral_3_eq_3 numeral_2_eq_2)
  have "outs ! n = fst (process ?q (ss ! n))"
    unfolding outs_def using assms(1) by (rule process_seq_nth)
  also have "\<dots> = Biquad_norm * (get (push (x ?q) (ss ! n)) 0
        + Biquad_b1 * get (push (x ?q) (ss ! n)) 1 + Biquad_b2 * get (push (x ?q) (ss ! n)) 2
        - Biquad_a1 * get (y ?q) 1 - Biquad_a2 * get (y ?q) 2)"
    using h(3) [of 0] by (simp add: process_fst process_priv_def)
  finally show ?thesis by (simp only: g)
qed

lemma Biquad_a1_nonzero: "Biquad_a1 \<noteq> 0"
proof -
  have "0 < cos (0.1 * pi)"
    by (intro cos_gt_zero_pi) (use pi_gt_zero in simp_all)
  then show ?thesis by (simp add: Biquad_a1_def)
qed

text \<open>
  C1: the claim is that the outputs of \<open>Biquad\<close> satisfy
  \<open>y[n] = norm * (x[n] + b1 * x[n-1] + b2 * x[n-2] - a1 * y[n-1] - a2 * y[n-2])\<close>
  with \<open>y[n-k]\<close> the output \<open>k\<close> samples back. That is the equation the comment of
  \<^verbatim>\<open>Biquad._process\<close> gives for the filter, but \<^verbatim>\<open>process\<close> calls \<^verbatim>\<open>_process\<close>
  before it pushes the output, so \<^verbatim>\<open>self.y.get(1)\<close> is the output two samples back. On
  the input 1, 0 the instance built at rate 16000 returns \<open>norm\<close> and then
  \<open>norm * b1\<close>, where the equation asks for \<open>norm * (b1 - a1 * norm)\<close>: the equation
  fails at index 1.
\<close>

theorem Biquad_feedback_one_sample_late:
  "instantiate Biquad 16000 1 = Inr (RTProcessor_init Biquad 16000 1 2)
   \<and> fst (process_seq (RTProcessor_init Biquad 16000 1 2) [1, 0])
       = [Biquad_norm, Biquad_norm * Biquad_b1]
   \<and> \<not> Biquad_equation [1, 0] (fst (process_seq (RTProcessor_init Biquad 16000 1 2) [1, 0])) 1"
proof -
  have run: "fst (process_seq (RTProcessor_init Biquad 16000 1 2) [1, 0])
       = [Biquad_norm, Biquad_norm * Biquad_b1]"
    by (simp add: RTProcessor_init_def CircularBuffer_init_def process_def process_priv_def
        push_def get_def get_index_def Let_def)
  have "Biquad_norm * Biquad_b1 \<noteq> Biquad_norm * (Biquad_b1 - Biquad_a1 * Biquad_norm)"
    using Biquad_a1_nonzero by (simp add: Biquad_norm_def)
  then have neq: "\<not> Biquad_equation [1, 0] [Biquad_norm, Biquad_norm * Biquad_b1] 1"
    by (simp add: Biquad_equation_def delayed_def)
  have inst: "instantiate Biquad 16000 1 = Inr (RTProcessor_init Biquad 16000 1 2)"
    by (simp add: instantiate_def)
  show ?thesis unfolding run using inst neq by blast
qed


section \<open>Recursive echo\<close>

lemma Recursive_Echo_N_range: "0 \<le> Recursive_Echo_N rate \<and> Recursive_Echo_N rate \<le> int rate"
proof -
  have "\<lfloor>0.3 * real rate\<rfloor> \<le> int rate"
    by (simp add: floor_le_iff)
  then show ?thesis by (simp add: Recursive_Echo_N_def py_int_def)
qed

text \<open>
  The recurrence the code computes on a new \<open>Recursive_Echo\<close>: the feedback term reads
  the output \<open>N + 1\<close> samples back.
\<close>

lemma Recursive_Echo_computes:
  fixes rate ch :: nat
  assumes "n < length ss"
  defines "outs \<equiv> fst (process_seq (RTProcessor_init Recursive_Echo rate ch rate) ss)"
  shows "outs ! n = Recursive_Echo_norm *
           (ss ! n + Recursive_Echo_a * delayed outs n (Suc (nat (Recursive_Echo_N rate))))"
proof -
  let ?p = "RTProcessor_init Recursive_Echo rate ch rate"
  let ?q = "snd (process_seq ?p (take n ss))"
  let ?N = "nat (Recursive_Echo_N rate)"
  have N: "int ?N = Recursive_Echo_N rate" "int ?N \<le> int rate"
    using Recursive_Echo_N_range [of rate] by simp_all
  have z: "int 0 \<le> int rate" by simp
  note h0 = run_histories [OF assms(1) z, of Recursive_Echo rate ch]
  note hN = run_histories [OF assms(1) N(2), of Recursive_Echo rate ch]
  have "outs ! n = fst (process ?q (ss ! n))"
    unfolding outs_def using assms(1) by (rule process_seq_nth)
  also have "\<dots> = Recursive_Echo_norm * (get (push (x ?q) (ss ! n)) 0
        + Recursive_Echo_a * get (y ?q) (Recursive_Echo_N rate))"
    using h0(3,4) by (simp add: process_fst process_priv_def)
  also have "get (push (x ?q) (ss ! n)) 0 = ss ! n"
    using h0(1) by (simp add: delayed_def)
  also have "get (y ?q) (Recursive_Echo_N rate) = delayed outs n (Suc ?N)"
    using hN(2) by (simp only: N(1) outs_def)
  finally show ?thesis .
qed

lemma Recursive_Echo_impulse_nth:
  fixes rate ch m :: nat
  defines "outs \<equiv> fst (process_seq (RTProcessor_init Recursive_Echo rate ch rate)
                          (1 # replicate m 0))"
  defines "P \<equiv> Suc (nat (Recursive_Echo_N rate))"
  assumes "n \<le> m"
  shows "outs ! n = (if n mod P = 0
                     then Recursive_Echo_norm * (Recursive_Echo_norm * Recursive_Echo_a) ^ (n div P)
                     else 0)"
  using assms(3)
proof (induction n rule: less_induct)
  case (less n)
  have n: "n < length (1 # replicate m (0::real))" using less.prems by simp
  have rec: "outs ! n = Recursive_Echo_norm *
           ((1 # replicate m 0) ! n + Recursive_Echo_a * delayed outs n P)"
    unfolding outs_def P_def by (rule Recursive_Echo_computes [OF n])
  show ?case
  proof (cases "n = 0")
    case True
    then show ?thesis using rec by (simp add: delayed_def P_def)
  next
    case False
    then have inp: "(1 # replicate m (0::real)) ! n = 0"
      using less.prems by (cases n) simp_all
    show ?thesis
    proof (cases "P \<le> n")
      case True
      have P: "0 < P" by (simp add: P_def)
      have "n - P < n" using True P by simp
      moreover have "n - P \<le> m" using less.prems by simp
      ultimately have ih: "outs ! (n - P) = (if (n - P) mod P = 0
           then Recursive_Echo_norm * (Recursive_Echo_norm * Recursive_Echo_a) ^ ((n - P) div P)
           else 0)"
        by (rule less.IH)
      have m: "(n - P) mod P = n mod P" using True by (simp add: le_mod_geq)
      have d: "n div P = Suc ((n - P) div P)" using True P by (simp add: le_div_geq)
      show ?thesis
        using rec inp True ih by (simp add: delayed_def m d)
    next
      case F: False
      then have "n mod P \<noteq> 0" using False by simp
      then show ?thesis using rec inp F by (simp add: delayed_def)
    qed
  qed
qed

lemma filter_multiples:
  fixes g :: "nat \<Rightarrow> real"
  assumes P: "0 < P" and g: "\<And>k. g k \<noteq> 0"
  shows "\<exists>K. filter (\<lambda>v. v \<noteq> 0) (map (\<lambda>n. if n mod P = 0 then g (n div P) else 0) [0..<L])
              = map g [0..<K]
            \<and> L \<le> K * P \<and> (K = 0 \<or> (K - 1) * P < L)"
proof (induction L)
  case 0
  have "filter (\<lambda>v. v \<noteq> 0) (map (\<lambda>n. if n mod P = 0 then g (n div P) else 0) [0..<0])
          = map g [0..<0] \<and> 0 \<le> 0 * P \<and> ((0::nat) = 0 \<or> (0 - 1) * P < 0)"
    by simp
  then show ?case by blast
next
  case (Suc L)
  then obtain K where K:
    "filter (\<lambda>v. v \<noteq> 0) (map (\<lambda>n. if n mod P = 0 then g (n div P) else 0) [0..<L]) = map g [0..<K]"
    "L \<le> K * P" "K = 0 \<or> (K - 1) * P < L"
    by blast
  show ?case
  proof (cases "L mod P = 0")
    case True
    then have "P dvd L" by (simp add: dvd_eq_mod_eq_0)
    then obtain q where q: "L = q * P" by (auto simp: dvd_def mult.commute)
    have "q \<le> K" using K(2) P q by simp
    moreover have "K \<le> q"
    proof (cases "K = 0")
      case True
      then show ?thesis by simp
    next
      case False
      then have "(K - 1) * P < q * P" using K(3) q by simp
      then have "K - 1 < q" using P by simp
      then show ?thesis by simp
    qed
    ultimately have Kq: "K = q" by simp
    have dv: "L div P = K" using q Kq P by simp
    have "filter (\<lambda>v. v \<noteq> 0) (map (\<lambda>n. if n mod P = 0 then g (n div P) else 0) [0..<Suc L])
            = map g [0..<Suc K]"
      using K(1) True g by (simp add: dv)
    moreover have "Suc L \<le> Suc K * P" using K(2) P by simp
    moreover have "(Suc K - 1) * P < Suc L" using q Kq by simp
    ultimately show ?thesis by blast
  next
    case False
    have "filter (\<lambda>v. v \<noteq> 0) (map (\<lambda>n. if n mod P = 0 then g (n div P) else 0) [0..<Suc L])
            = map g [0..<K]"
      using K(1) False by simp
    moreover have "L \<noteq> K * P" using False by auto
    then have "Suc L \<le> K * P" using K(2) by simp
    moreover have "K = 0 \<or> (K - 1) * P < Suc L" using K(3) by auto
    ultimately show ?thesis by blast
  qed
qed

lemma Recursive_Echo_gain_nonzero:
  "Recursive_Echo_norm * (Recursive_Echo_norm * Recursive_Echo_a) ^ k \<noteq> 0"
  by (simp add: Recursive_Echo_norm_def Recursive_Echo_a_def)

text \<open>
  C7, as claimed: on a new \<open>Recursive_Echo\<close> fed 1 and then zeros the output is not zero
  at the indices \<open>N\<close>, \<open>2N\<close> and \<open>3N\<close> and falls by the factor \<open>a\<close> from one of them
  to the next. At rate 10, where \<open>N = 3\<close>, the ten first outputs are the ones listed: the
  output is zero at 3, 6 and 9, and the first echo is \<open>norm * a\<close> times the first output,
  which is not \<open>a\<close> times it.
\<close>

theorem Recursive_Echo_counterexample:
  "instantiate Recursive_Echo 10 1 = Inr (RTProcessor_init Recursive_Echo 10 1 10)
   \<and> Recursive_Echo_N 10 = 3
   \<and> fst (process_seq (RTProcessor_init Recursive_Echo 10 1 10) [1, 0, 0, 0, 0, 0, 0, 0, 0, 0])
       = [Recursive_Echo_norm, 0, 0, 0,
          Recursive_Echo_norm * (Recursive_Echo_a * Recursive_Echo_norm), 0, 0, 0,
          Recursive_Echo_norm
            * (Recursive_Echo_a * (Recursive_Echo_norm * (Recursive_Echo_a * Recursive_Echo_norm))),
          0]
   \<and> fst (process_seq (RTProcessor_init Recursive_Echo 10 1 10) [1, 0, 0, 0, 0, 0, 0, 0, 0, 0]) ! 3
       = 0
   \<and> Recursive_Echo_norm * (Recursive_Echo_a * Recursive_Echo_norm)
       \<noteq> Recursive_Echo_a * Recursive_Echo_norm"
proof -
  have N: "Recursive_Echo_N 10 = 3"
    by (simp add: Recursive_Echo_N_def py_int_def)
  have run: "fst (process_seq (RTProcessor_init Recursive_Echo 10 1 10) [1, 0, 0, 0, 0, 0, 0, 0, 0, 0])
       = [Recursive_Echo_norm, 0, 0, 0,
          Recursive_Echo_norm * (Recursive_Echo_a * Recursive_Echo_norm), 0, 0, 0,
          Recursive_Echo_norm
            * (Recursive_Echo_a * (Recursive_Echo_norm * (Recursive_Echo_a * Recursive_Echo_norm))),
          0]"
    by (simp add: N RTProcessor_init_def CircularBuffer_init_def process_def process_priv_def
        push_def get_def get_index_def Let_def)
  have inst: "instantiate Recursive_Echo 10 1 = Inr (RTProcessor_init Recursive_Echo 10 1 10)"
    by (simp add: instantiate_def)
  have ne: "Recursive_Echo_norm * (Recursive_Echo_a * Recursive_Echo_norm)
       \<noteq> Recursive_Echo_a * Recursive_Echo_norm"
    by (simp add: Recursive_Echo_norm_def Recursive_Echo_a_def)
  show ?thesis unfolding run using inst N ne by simp
qed

text \<open>
  C7, amended: on a new \<open>Recursive_Echo\<close> fed 1 and then \<open>m\<close> zeros, the outputs that
  are not zero are, in their order, \<open>norm * (norm * a) ^ k\<close> for \<open>k = 0, 1, 2, ...\<close>: each
  echo is \<open>norm * a = (1 - a * a) * a = 0.357\<close> times the one before it. With at least
  \<open>3 * N + 3\<close> zeros fed there are at least four of them.
\<close>

theorem Recursive_Echo_impulse_response:
  assumes "instantiate Recursive_Echo rate channels = Inr p"
  shows "\<exists>K. filter (\<lambda>v. v \<noteq> 0) (fst (process_seq p (1 # replicate m 0)))
              = map (\<lambda>k. Recursive_Echo_norm * (Recursive_Echo_norm * Recursive_Echo_a) ^ k) [0..<K]
            \<and> (3 * nat (Recursive_Echo_N rate) + 3 \<le> m \<longrightarrow> 4 \<le> K)
            \<and> Recursive_Echo_norm * Recursive_Echo_a = 0.357"
proof -
  let ?g = "\<lambda>k. Recursive_Echo_norm * (Recursive_Echo_norm * Recursive_Echo_a) ^ k"
  let ?P = "Suc (nat (Recursive_Echo_N rate))"
  let ?f = "\<lambda>n. if n mod ?P = 0 then ?g (n div ?P) else 0"
  let ?outs = "fst (process_seq p (1 # replicate m 0))"
  have p: "p = RTProcessor_init Recursive_Echo rate channels rate"
    using assms by (simp add: instantiate_def)
  have len: "length ?outs = Suc m"
    by (simp only: process_seq_length) simp
  have "?outs = map ?f [0..<Suc m]"
  proof (rule nth_equalityI)
    show "length ?outs = length (map ?f [0..<Suc m])"
      by (simp only: len) simp
  next
    fix n
    assume "n < length ?outs"
    then have n: "n \<le> m" unfolding len by simp
    then have "?outs ! n = ?f n"
      unfolding p by (rule Recursive_Echo_impulse_nth)
    moreover have "map ?f [0..<Suc m] ! n = ?f n"
      using n by (simp only: nth_map_upt) simp
    ultimately show "?outs ! n = map ?f [0..<Suc m] ! n" by simp
  qed
  moreover obtain K where K:
    "filter (\<lambda>v. v \<noteq> 0) (map ?f [0..<Suc m]) = map ?g [0..<K]" "Suc m \<le> K * ?P"
    using filter_multiples [of ?P ?g "Suc m"] Recursive_Echo_gain_nonzero by blast
  ultimately have 1: "filter (\<lambda>v. v \<noteq> 0) ?outs = map ?g [0..<K]" by simp
  have 2: "4 \<le> K" if "3 * nat (Recursive_Echo_N rate) + 3 \<le> m"
  proof -
    have "3 * ?P < K * ?P" using that K(2) by simp
    then have "3 < K" by (simp only: mult_less_cancel2)
    then show ?thesis by simp
  qed
  have 3: "Recursive_Echo_norm * Recursive_Echo_a = 0.357"
    by (simp add: Recursive_Echo_norm_def Recursive_Echo_a_def)
  show ?thesis using 1 2 3 by blast
qed

theorem Recursive_Echo_impulse_response_witness:
  "instantiate Recursive_Echo 10 1 = Inr (RTProcessor_init Recursive_Echo 10 1 10)
   \<and> (\<exists>K. filter (\<lambda>v. v \<noteq> 0)
              (fst (process_seq (RTProcessor_init Recursive_Echo 10 1 10) (1 # replicate 12 0)))
            = map (\<lambda>k. Recursive_Echo_norm * (Recursive_Echo_norm * Recursive_Echo_a) ^ k) [0..<K]
          \<and> 4 \<le> K)"
proof -
  have inst: "instantiate Recursive_Echo 10 1 = Inr (RTProcessor_init Recursive_Echo 10 1 10)"
    by (simp add: instantiate_def)
  have N: "3 * nat (Recursive_Echo_N 10) + 3 \<le> (12::nat)"
    by (simp add: Recursive_Echo_N_def py_int_def)
  show ?thesis
    using inst N Recursive_Echo_impulse_response [OF inst, of 12] by blast
qed

end
